theory Spec2Isabelle
  imports Complex_Main "HOL-Library.Multiset" "HOL-Library.Sublist"
begin

section \<open>Errors and Python helpers\<close>

datatype error = ValueError string | IndexError | RuntimeError

text \<open>
  \<open>xs[i]\<close> on a Python list: positions \<open>0 .. len - 1\<close> read from the front,
  \<open>-len .. -1\<close> from the back, anything else raises IndexError.
\<close>

definition py_getitem :: "'a list \<Rightarrow> int \<Rightarrow> error + 'a" where
  "py_getitem xs i =
     (if 0 \<le> i \<and> i < int (length xs) then Inr (xs ! nat i)
      else if - int (length xs) \<le> i \<and> i < 0 then Inr (xs ! nat (int (length xs) + i))
      else Inl IndexError)"

text \<open>A slice \<open>t[a:b]\<close> of a tensor along its first axis, for bounds \<open>0 \<le> a, b\<close>.\<close>

definition py_slice :: "'a list \<Rightarrow> nat \<Rightarrow> nat \<Rightarrow> 'a list" where
  "py_slice t a b = take (b - a) (drop a t)"

text \<open>Decimal rendering of a non-negative integer, as an f-string prints it.\<close>

fun show_nat :: "nat \<Rightarrow> string" where
  "show_nat n =
     (if n < 10 then [char_of (48 + n)]
      else show_nat (n div 10) @ [char_of (48 + n mod 10)])"

declare show_nat.simps [simp del]

definition arange :: "nat \<Rightarrow> nat list" where
  "arange n = [0..<n]"

text \<open>
  \<open>np.array_split(ary, k)\<close>: the first \<open>len(ary) % k\<close> sections have
  \<open>len(ary) // k + 1\<close> elements, the others \<open>len(ary) // k\<close>.
\<close>

definition section_sizes :: "nat \<Rightarrow> nat \<Rightarrow> nat list" where
  "section_sizes n k = replicate (n mod k) (n div k + 1) @ replicate (k - n mod k) (n div k)"

fun split_sections :: "'a list \<Rightarrow> nat list \<Rightarrow> 'a list list" where
  "split_sections xs [] = []"
| "split_sections xs (s # ss) = take s xs # split_sections (drop s xs) ss"

definition array_split :: "'a list \<Rightarrow> nat \<Rightarrow> 'a list list" where
  "array_split xs k = split_sections xs (section_sizes (length xs) k)"

text \<open>
  \<open>sklearn.model_selection.KFold(n_splits, shuffle=False).split(X)\<close> for \<open>X\<close> of
  \<open>n_samples\<close> rows, forced by \<open>list(...)\<close>: it raises ValueError when there are fewer
  samples than splits; otherwise the sample positions are cut into \<open>n_splits\<close> consecutive
  folds (the first \<open>n_samples % n_splits\<close> one longer), and the pair for a fold is
  (all other positions in ascending order, the fold).
\<close>

definition kfold_split :: "nat \<Rightarrow> nat \<Rightarrow> error + (nat list \<times> nat list) list" where
  "kfold_split n_splits n_samples =
     (if n_splits > n_samples then
        Inl (ValueError (''Cannot have number of splits n_splits='' @ show_nat n_splits
               @ '' greater than the number of samples: n_samples='' @ show_nat n_samples
               @ ''.''))
      else
        Inr (map (\<lambda>test_index.
                    (filter (\<lambda>i. i \<notin> set test_index) (arange n_samples), test_index))
               (split_sections (arange n_samples) (section_sizes n_samples n_splits))))"

text \<open>\<open>torch.cat\<close> along the first axis; it refuses an empty list of tensors.\<close>

definition torch_cat :: "'a list list \<Rightarrow> error + 'a list" where
  "torch_cat ts = (if ts = [] then Inl RuntimeError else Inr (concat ts))"

text \<open>\<open>np.cumsum\<close>\<close>

fun cumsum_from :: "int \<Rightarrow> int list \<Rightarrow> int list" where
  "cumsum_from a [] = []"
| "cumsum_from a (x # xs) = (a + x) # cumsum_from (a + x) xs"

definition cumsum :: "int list \<Rightarrow> int list" where
  "cumsum xs = cumsum_from 0 xs"

section \<open>The dataset\<close>

text \<open>
  \<open>SingleRatDataset\<close>: \<open>neural\<close> holds one row of spike counts per time step, \<open>index\<close>
  one behaviour row (position, direction) per time step.  \<open>selected_indices\<close> and
  \<open>concat_idx\<close> exist only once \<open>_split\<close> has set them.
\<close>

record ('n, 'p, 'd) dataset =
  neural :: "'n list"
  index :: "('p \<times> 'd) list"
  selected_indices :: "(nat \<times> nat) list option"
  concat_idx :: "int list option"

section \<open>Trial boundaries\<close>

text \<open>\<open>np.where(self.index[1:, 1] != self.index[:-1, 1])[0]\<close>, on the direction column.\<close>

definition direction_change_idx :: "'d list \<Rightarrow> nat list" where
  "direction_change_idx d = filter (\<lambda>i. d ! (i + 1) \<noteq> d ! i) [0..<length d - 1]"

text \<open>The slice \<open>[1::2]\<close>: every second element, starting at position 1.\<close>

fun slice_1_2 :: "'a list \<Rightarrow> 'a list" where
  "slice_1_2 (x # y # xs) = y # slice_1_2 xs"
| "slice_1_2 xs = []"

text \<open>\<open>np.append(np.insert(direction_change_idx[1::2], 0, 0), len(self.index))\<close>\<close>

definition trial_change_idx :: "'d list \<Rightarrow> nat list" where
  "trial_change_idx d = 0 # slice_1_2 (direction_change_idx d) @ [length d]"

definition total_trials_num :: "'d list \<Rightarrow> nat" where
  "total_trials_num d = length (trial_change_idx d) - 1"

text \<open>The row counts of the trials: \<open>trial_change_idx[i + 1] - trial_change_idx[i]\<close>.\<close>

definition trial_lengths :: "nat list \<Rightarrow> int list" where
  "trial_lengths tci = map (\<lambda>i. int (tci ! (i + 1)) - int (tci ! i)) [0..<length tci - 1]"

section \<open>The nested 3-fold split\<close>

text \<open>The three lists of \<open>_split\<close> that the loop over the outer folds extends.\<close>

record split_vars =
  train_trials :: "nat list"
  valid_trials :: "nat list"
  test_trials :: "nat list"

definition init_vars :: split_vars where
  "init_vars = \<lparr>train_trials = [], valid_trials = [], test_trials = []\<rparr>"

text \<open>The body of \<open>for out_fold in outer_folds\<close> (lines 141-146).\<close>

definition loop_body :: "int \<Rightarrow> split_vars \<Rightarrow> nat list \<Rightarrow> error + split_vars" where
  "loop_body split_no v out_fold =
     (case kfold_split 3 (length out_fold) of
        Inl e \<Rightarrow> Inl e
      | Inr pairs \<Rightarrow>
          (case py_getitem pairs split_no of
             Inl e \<Rightarrow> Inl e
           | Inr (train_trial, val_test_trial) \<Rightarrow>
               (let halves = array_split val_test_trial 2;
                    test_trial = halves ! 0;
                    valid_trial = halves ! 1;
                    v1 = v\<lparr>train_trials := train_trials v @ map ((!) out_fold) train_trial\<rparr>;
                    v2 = v1\<lparr>valid_trials := valid_trials v1 @ map ((!) out_fold) valid_trial\<rparr>;
                    v3 = v2\<lparr>test_trials := test_trials v2 @ map ((!) out_fold) test_trial\<rparr>
                in Inr v3)))"

fun for_out_folds :: "int \<Rightarrow> nat list list \<Rightarrow> split_vars \<Rightarrow> error + split_vars" where
  "for_out_folds split_no [] v = Inr v"
| "for_out_folds split_no (out_fold # rest) v =
     (case loop_body split_no v out_fold of
        Inl e \<Rightarrow> Inl e
      | Inr v' \<Rightarrow> for_out_folds split_no rest v')"

text \<open>Lines 122-146: the boundaries, the outer folds and the loop over them.\<close>

definition accumulate_trials :: "int \<Rightarrow> 'd list \<Rightarrow> error + split_vars" where
  "accumulate_trials split_no d =
     (let n_trials = total_trials_num d;
          outer_folds = array_split (arange n_trials) 3
      in for_out_folds split_no outer_folds init_vars)"

section \<open>Selecting the trials of a split\<close>

text \<open>
  The value of \<open>trials\<close>: a sequence of trial numbers that can index an array (a Python
  list of numpy integers, or an integer array), or a float64 array holding such numbers.
\<close>

datatype trial_seq = IntSeq "nat list" | FloatSeq "nat list"

fun seq_values :: "trial_seq \<Rightarrow> nat list" where
  "seq_values (IntSeq ts) = ts"
| "seq_values (FloatSeq ts) = ts"

text \<open>
  \<open>np.concatenate([train_trials, valid_trials])\<close> on two Python lists of numpy
  integers: an empty list becomes an empty float64 array, and then the result is a
  float64 array as well.
\<close>

definition np_concatenate :: "nat list \<Rightarrow> nat list \<Rightarrow> trial_seq" where
  "np_concatenate xs ys =
     (if xs = [] \<or> ys = [] then FloatSeq (xs @ ys) else IntSeq (xs @ ys))"

text \<open>The message of the ValueError of lines 154-156.\<close>

definition invalid_split_msg :: "string \<Rightarrow> string" where
  "invalid_split_msg split =
     [CHR 0x27] @ split @ [CHR 0x27] @ '' is not a valid split. Use ''
     @ [CHR 0x27] @ ''train'' @ [CHR 0x27] @ '', '' @ [CHR 0x27] @ ''valid'' @ [CHR 0x27]
     @ '' or '' @ [CHR 0x27] @ ''test'' @ [CHR 0x27]"

text \<open>
  Modelled from the spec: the conditions of the \<open>if\<close>/\<open>elif\<close> chain of lines 147-153,
  whose header lines are missing from the source file; only its five assignments to
  \<open>trials\<close> (lines 148-152) and its final \<open>else\<close> (lines 153-156) are there.  The spec
  says: resolve the split name, train to the train list, valid to the valid list, test
  to the test list, all to the full ascending trial range, wo_test to the train and valid
  lists together; any other value fails with an invalid-argument error.  The conditions
  below are these names, in the order of the assignments; the assigned values and the
  error are the ones of the source.
\<close>

definition resolve_split :: "string \<Rightarrow> nat \<Rightarrow> split_vars \<Rightarrow> error + trial_seq" where
  "resolve_split split n_trials v =
     (if split = ''train'' then Inr (IntSeq (train_trials v))
      else if split = ''valid'' then Inr (IntSeq (valid_trials v))
      else if split = ''test'' then Inr (IntSeq (test_trials v))
      else if split = ''all'' then Inr (IntSeq (arange n_trials))
      else if split = ''wo_test'' then Inr (np_concatenate (train_trials v) (valid_trials v))
      else Inl (ValueError (invalid_split_msg split)))"

section \<open>Reassembling the tensors\<close>

text \<open>Reading \<open>a[i]\<close> from a numpy array with a non-negative integer.\<close>

definition np_getitem :: "nat list \<Rightarrow> nat \<Rightarrow> error + nat" where
  "np_getitem a i = (if i < length a then Inr (a ! i) else Inl IndexError)"

text \<open>
  \<open>slice(trial_change_idx[i], trial_change_idx[i + 1]) for i in trials\<close> (line 158), for
  trial numbers that can index: the first read out of range raises IndexError.
\<close>

fun trial_slices :: "nat list \<Rightarrow> nat list \<Rightarrow> error + (nat \<times> nat) list" where
  "trial_slices tci [] = Inr []"
| "trial_slices tci (i # rest) =
     (case np_getitem tci i of
        Inl e \<Rightarrow> Inl e
      | Inr a \<Rightarrow>
          (case np_getitem tci (i + 1) of
             Inl e \<Rightarrow> Inl e
           | Inr b \<Rightarrow>
               (case trial_slices tci rest of
                  Inl e \<Rightarrow> Inl e
                | Inr r \<Rightarrow> Inr ((a, b) # r))))"

text \<open>
  The same for any value of \<open>trials\<close>: a float64 number is no valid index, so a float64
  array raises IndexError at its first element, and gives no slice when it is empty.
\<close>

definition selected_slices :: "nat list \<Rightarrow> trial_seq \<Rightarrow> error + (nat \<times> nat) list" where
  "selected_slices tci s =
     (case s of
        IntSeq ts \<Rightarrow> trial_slices tci ts
      | FloatSeq ts \<Rightarrow> (if ts = [] then Inr [] else Inl IndexError))"

text \<open>The offsets of lines 168-171, for the trial numbers \<open>ts\<close> of \<open>trials\<close>.\<close>

definition concat_offsets :: "nat list \<Rightarrow> nat list \<Rightarrow> int list" where
  "concat_offsets tci ts =
     (let cumulated_len = cumsum (map (\<lambda>i. int (tci ! (i + 1)) - int (tci ! i)) ts)
      in map fst (filter snd
           (zip (butlast cumulated_len)
                (map (\<lambda>(a, b). a + 1 \<noteq> b) (zip (butlast ts) (tl ts))))))"

text \<open>
  Lines 157-171: the selected row ranges, the two concatenated tensors and the offsets
  in \<open>concat_idx\<close>.  Lines 159-166 read the same boundaries again as line 158 did, so
  they take the row ranges computed there.  An assignment to \<open>self\<close> that was executed
  before an exception stays.
\<close>

definition reassemble ::
  "nat list \<Rightarrow> trial_seq \<Rightarrow> ('n, 'p, 'd) dataset \<Rightarrow> (error + unit) \<times> ('n, 'p, 'd) dataset" where
  "reassemble tci s ds =
     (case selected_slices tci s of
        Inl e \<Rightarrow> (Inl e, ds)
      | Inr sl \<Rightarrow>
          (let ds1 = ds\<lparr>selected_indices := Some sl\<rparr>
           in case torch_cat (map (\<lambda>(a, b). py_slice (neural ds1) a b) sl) of
                Inl e \<Rightarrow> (Inl e, ds1)
              | Inr new_neural \<Rightarrow>
                  (let ds2 = ds1\<lparr>neural := new_neural\<rparr>
                   in case torch_cat (map (\<lambda>(a, b). py_slice (index ds2) a b) sl) of
                        Inl e \<Rightarrow> (Inl e, ds2)
                      | Inr new_index \<Rightarrow>
                          (Inr (), ds2\<lparr>index := new_index,
                                       concat_idx :=
                                         Some (concat_offsets tci (seq_values s))\<rparr>))))"

text \<open>
  \<open>SingleRatTrialSplitDataset._split\<close>: the trial lists, the selection by the name of
  the split, and the reassembly.
\<close>

definition split_dataset ::
  "string \<Rightarrow> int \<Rightarrow> ('n, 'p, 'd) dataset \<Rightarrow> (error + unit) \<times> ('n, 'p, 'd) dataset" where
  "split_dataset split split_no ds =
     (let d = map snd (index ds);
          tci = trial_change_idx d;
          n_trials = total_trials_num d
      in case accumulate_trials split_no d of
           Inl e \<Rightarrow> (Inl e, ds)
         | Inr v \<Rightarrow>
             (case resolve_split split n_trials v of
                Inl e \<Rightarrow> (Inl e, ds)
              | Inr s \<Rightarrow> reassemble tci s ds))"

section \<open>kNN decoding\<close>

text \<open>
  \<open>np.linspace(start, stop, num, dtype=int)\<close>: the points
  \<open>start + i * (stop - start) / (num - 1)\<close>, rounded down.
\<close>

definition linspace_int :: "int \<Rightarrow> int \<Rightarrow> nat \<Rightarrow> int list" where
  "linspace_int start stop num =
     map (\<lambda>i. \<lfloor>rat_of_int start + rat_of_nat i * (rat_of_int (stop - start) / rat_of_nat (num - 1))\<rfloor>)
       [0..<num]"

text \<open>\<open>nn = np.power(np.linspace(1, 10, 6, dtype=int), 2)\<close>\<close>

definition nn :: "int list" where
  "nn = map (\<lambda>x. x ^ 2) (linspace_int 1 10 6)"

text \<open>
  \<open>SingleRatDataset.decode\<close>.  The regressor is scikit-learn's; \<open>err n\<close> stands for the
  median absolute error on the position column and \<open>score n\<close> for the R2 score that it
  gives with \<open>n\<close> neighbours.  The result is the dictionary \<open>metric\<close>, in insertion order.
\<close>

definition decode :: "(int \<Rightarrow> 'v) \<Rightarrow> (int \<Rightarrow> 'v) \<Rightarrow> (string \<times> 'v) list" where
  "decode err score =
     concat (map (\<lambda>n. [(''n'' @ show_nat (nat n) @ ''_err'', err n),
                        (''n'' @ show_nat (nat n) @ ''_r2'', score n)]) nn)"

section \<open>The dataset with shuffled labels\<close>

text \<open>
  \<open>Generator.shuffle\<close> on a one-dimensional array: for \<open>i\<close> from \<open>n - 1\<close> down to 1 it
  draws \<open>j\<close> from the bit generator, bounded by \<open>i\<close>, and swaps the entries \<open>i\<close> and \<open>j\<close>.
  The draws of \<open>PCG64(seed)\<close> are the parameter \<open>draw\<close>: \<open>draw i\<close> is the one made
  at position \<open>i\<close>.
\<close>

fun shuffle_from :: "(nat \<Rightarrow> nat) \<Rightarrow> nat \<Rightarrow> 'a list \<Rightarrow> 'a list" where
  "shuffle_from draw 0 xs = xs"
| "shuffle_from draw (Suc i) xs =
     (let j = draw (Suc i) in shuffle_from draw i (xs[Suc i := xs ! j, j := xs ! Suc i]))"

definition shuffle :: "(nat \<Rightarrow> nat) \<Rightarrow> 'a list \<Rightarrow> 'a list" where
  "shuffle draw xs = shuffle_from draw (length xs - 1) xs"

text \<open>
  \<open>SingleRatCorruptDataset.__init__\<close> after the superclass has loaded the recording;
  \<open>pcg64 seed n\<close> gives the draws of the generator seeded with \<open>seed\<close> while it shuffles
  \<open>n\<close> entries.
\<close>

definition corrupt_init ::
  "('s \<Rightarrow> nat \<Rightarrow> nat \<Rightarrow> nat) \<Rightarrow> 's \<Rightarrow> ('n, 'p, 'd) dataset \<Rightarrow> ('n, 'p, 'd) dataset" where
  "corrupt_init pcg64 seed ds =
     (let shuffled_index = shuffle (pcg64 seed (length (index ds))) (arange (length (index ds)))
      in ds\<lparr>index := map ((!) (index ds)) shuffled_index\<rparr>)"

section \<open>Notions used in the statements\<close>

text \<open>
  Cutting \<open>m\<close> positions into three consecutive blocks, the first \<open>m mod 3\<close> of them one
  longer: the length and the first position of block \<open>k\<close> (for \<open>k\<close> = 0, 1, 2).
\<close>

definition third_size :: "nat \<Rightarrow> nat \<Rightarrow> nat" where
  "third_size m k = m div 3 + (if k < m mod 3 then 1 else 0)"

definition third_start :: "nat \<Rightarrow> nat \<Rightarrow> nat" where
  "third_start m k = k * (m div 3) + min k (m mod 3)"

definition third_block :: "nat \<Rightarrow> nat \<Rightarrow> nat list" where
  "third_block m k = [third_start m k..<third_start m k + third_size m k]"

text \<open>
  An example recording for the statements below: the direction column of 18 time steps in
  which the direction flips at every step, which gives 9 trials of 2 rows each, and a
  dataset with that column (neural row \<open>i\<close> is the number \<open>i\<close>, the position is \<open>i\<close> too).
\<close>

definition flip_directions :: "int list" where
  "flip_directions = [1, - 1, 1, - 1, 1, - 1, 1, - 1, 1, - 1, 1, - 1, 1, - 1, 1, - 1, 1, - 1]"

definition flip_dataset :: "(nat, nat, int) dataset" where
  "flip_dataset = \<lparr>neural = [0..<18], index = zip [0..<18] flip_directions,
                    selected_indices = None, concat_idx = None\<rparr>"

text \<open>
  The same with one more time step, which gives 10 trials (the first of 1 row, the
  others of 2 rows), and the recording of 7 time steps of the scenario with 2 trials.
\<close>

definition flip_dataset_10 :: "(nat, nat, int) dataset" where
  "flip_dataset_10 = \<lparr>neural = [0..<19], index = zip [0..<19] (flip_directions @ [1]),
                       selected_indices = None, concat_idx = None\<rparr>"



text \<open>
  A stand-in for the seeded generator in the example of the shuffled labels: the draw at
  position \<open>i\<close> is \<open>(seed + i) mod (i + 1)\<close>, which is at most \<open>i\<close>.
\<close>

definition example_draws :: "nat \<Rightarrow> nat \<Rightarrow> nat \<Rightarrow> nat" where
  "example_draws s n i = (s + i) mod (i + 1)"

section \<open>Properties\<close>

subsection \<open>Trial boundaries\<close>

lemma dci_sorted: "sorted_wrt (<) (direction_change_idx d)"
  unfolding direction_change_idx_def by (simp add: sorted_wrt_filter)

lemma dci_bound: "i \<in> set (direction_change_idx d) \<Longrightarrow> i + 1 < length d"
  unfolding direction_change_idx_def by auto

lemma slice_1_2_subset: "set (slice_1_2 xs) \<subseteq> set xs"
  by (induction xs rule: slice_1_2.induct) auto

lemma slice_1_2_sorted: "sorted_wrt (<) xs \<Longrightarrow> sorted_wrt (<) (slice_1_2 xs)"
proof (induction xs rule: slice_1_2.induct)
  case (1 x y xs)
  then show ?case using slice_1_2_subset[of xs] by auto
qed auto

lemma slice_1_2_pos: "sorted_wrt (<) (xs::nat list) \<Longrightarrow> y \<in> set (slice_1_2 xs) \<Longrightarrow> 0 < y"
proof (induction xs rule: slice_1_2.induct)
  case (1 x y' xs)
  then show ?case by auto
qed auto

lemma slice_dci_bounds:
  assumes "y \<in> set (slice_1_2 (direction_change_idx d))"
  shows "0 < y \<and> y < length d"
proof -
  have "y \<in> set (direction_change_idx d)"
    using assms slice_1_2_subset[of "direction_change_idx d"] by (rule set_mp[rotated])
  then have "y + 1 < length d" by (rule dci_bound)
  moreover have "0 < y"
    by (rule slice_1_2_pos[of "direction_change_idx d"]) (rule dci_sorted, rule assms)
  ultimately show ?thesis by simp
qed

lemma tci_sorted:
  assumes "d \<noteq> []"
  shows "sorted_wrt (<) (trial_change_idx d)"
proof -
  let ?ys = "slice_1_2 (direction_change_idx d)"
  have a: "sorted_wrt (<) ?ys" using dci_sorted by (rule slice_1_2_sorted)
  have b: "\<forall>y \<in> set ?ys. 0 < y" using slice_dci_bounds by blast
  have c: "\<forall>y \<in> set ?ys. y < length d" using slice_dci_bounds by blast
  have "0 < length d" using assms by simp
  with a b c show ?thesis
    unfolding trial_change_idx_def by (simp add: sorted_wrt_append)
qed

lemma trial_lengths_snoc:
  assumes "xs \<noteq> []"
  shows "trial_lengths (xs @ [x]) = trial_lengths xs @ [int x - int (last xs)]"
proof -
  obtain n where n: "length xs = Suc n"
    using assms by (cases xs) auto
  have "trial_lengths (xs @ [x])
      = map (\<lambda>i. int ((xs @ [x]) ! (i + 1)) - int ((xs @ [x]) ! i)) ([0..<n] @ [n])"
    unfolding trial_lengths_def using n by simp
  also have "\<dots> = map (\<lambda>i. int (xs ! (i + 1)) - int (xs ! i)) [0..<n]
                 @ [int x - int (xs ! n)]"
    using n by (simp add: nth_append)
  also have "\<dots> = trial_lengths xs @ [int x - int (last xs)]"
    unfolding trial_lengths_def using n assms by (simp add: last_conv_nth)
  finally show ?thesis .
qed

lemma trial_lengths_sum:
  "tci \<noteq> [] \<Longrightarrow> sum_list (trial_lengths tci) = int (last tci) - int (hd tci)"
proof (induction tci rule: rev_induct)
  case Nil then show ?case by simp
next
  case (snoc x xs)
  show ?case
  proof (cases "xs = []")
    case True then show ?thesis by (simp add: trial_lengths_def)
  next
    case False
    then show ?thesis using snoc by (simp add: trial_lengths_snoc hd_append)
  qed
qed

lemma trial_lengths_pos:
  assumes "sorted_wrt (<) tci" "l \<in> set (trial_lengths tci)"
  shows "0 < l"
proof -
  from assms(2) obtain i where i: "i < length tci - 1" "l = int (tci ! (i + 1)) - int (tci ! i)"
    unfolding trial_lengths_def by auto
  have "tci ! i < tci ! (i + 1)"
    using assms(1) i(1) by (simp add: sorted_wrt_nth_less)
  then show ?thesis using i(2) by simp
qed

text \<open>
  Claim C4.  For a non-empty recording the boundary list is strictly increasing, starts
  at 0, ends at the recording length and has trial count + 1 entries; so every trial has
  at least one row and the trial lengths add up to the recording length: the boundaries
  cut the recording without gaps or overlaps.
\<close>

theorem trial_boundaries_partition:
  assumes "d \<noteq> []"
  shows "sorted_wrt (<) (trial_change_idx d)
       \<and> hd (trial_change_idx d) = 0
       \<and> last (trial_change_idx d) = length d
       \<and> length (trial_change_idx d) = total_trials_num d + 1
       \<and> (\<forall>l \<in> set (trial_lengths (trial_change_idx d)). 0 < l)
       \<and> sum_list (trial_lengths (trial_change_idx d)) = int (length d)"
proof -
  have s: "sorted_wrt (<) (trial_change_idx d)" using assms by (rule tci_sorted)
  have h: "hd (trial_change_idx d) = 0" "last (trial_change_idx d) = length d"
    "trial_change_idx d \<noteq> []"
    by (simp_all add: trial_change_idx_def)
  have n: "length (trial_change_idx d) = total_trials_num d + 1"
    by (simp add: total_trials_num_def trial_change_idx_def)
  have p: "\<forall>l \<in> set (trial_lengths (trial_change_idx d)). 0 < l"
    using trial_lengths_pos[OF s] by blast
  have "sum_list (trial_lengths (trial_change_idx d)) = int (length d)"
    using trial_lengths_sum[OF h(3)] h(1,2) by simp
  with s h n p show ?thesis by simp
qed

theorem trial_boundaries_partition_witness:
  "[1, 1, - 1, - 1, 1, 1, - 1 :: int] \<noteq> []
   \<and> sorted_wrt (<) (trial_change_idx [1, 1, - 1, - 1, 1, 1, - 1 :: int])
   \<and> hd (trial_change_idx [1, 1, - 1, - 1, 1, 1, - 1 :: int]) = 0
   \<and> last (trial_change_idx [1, 1, - 1, - 1, 1, 1, - 1 :: int])
       = length [1, 1, - 1, - 1, 1, 1, - 1 :: int]
   \<and> length (trial_change_idx [1, 1, - 1, - 1, 1, 1, - 1 :: int])
       = total_trials_num [1, 1, - 1, - 1, 1, 1, - 1 :: int] + 1
   \<and> sum_list (trial_lengths (trial_change_idx [1, 1, - 1, - 1, 1, 1, - 1 :: int]))
       = int (length [1, 1, - 1, - 1, 1, 1, - 1 :: int])"
proof -
  have ne: "[1, 1, - 1, - 1, 1, 1, - 1 :: int] \<noteq> []" by simp
  from trial_boundaries_partition[OF ne] ne show ?thesis by blast
qed

subsection \<open>Array splitting and the inner folds\<close>

lemma replicate_3: "replicate 3 x = [x, x, x]"
  by (simp add: numeral_3_eq_3)

lemma replicate_2: "replicate 2 x = [x, x]"
  by (simp add: numeral_2_eq_2)

lemma section_sizes_3:
  "section_sizes m 3 = [m div 3 + (if 0 < m mod 3 then 1 else 0),
                        m div 3 + (if 1 < m mod 3 then 1 else 0), m div 3]"
proof -
  consider "m mod 3 = 0" | "m mod 3 = 1" | "m mod 3 = 2" by linarith
  then show ?thesis
  proof cases
    case 1
    then show ?thesis by (simp add: section_sizes_def replicate_3)
  next
    case 2
    have "(3::nat) - 1 = 2" by simp
    with 2 show ?thesis by (simp add: section_sizes_def replicate_2)
  next
    case 3
    have "(3::nat) - 2 = 1" by simp
    with 3 show ?thesis by (simp add: section_sizes_def replicate_2)
  qed
qed

lemma section_sizes_2: "section_sizes l 2 = [(l + 1) div 2, l div 2]"
proof -
  have "l mod 2 = 0 \<or> l mod 2 = 1" by presburger
  then show ?thesis
  proof
    assume "l mod 2 = 0"
    moreover from this have "(l + 1) div 2 = l div 2" by presburger
    ultimately show ?thesis by (simp add: section_sizes_def numeral_2_eq_2)
  next
    assume "l mod 2 = 1"
    moreover from this have "(l + 1) div 2 = l div 2 + 1" by presburger
    ultimately show ?thesis by (simp add: section_sizes_def numeral_2_eq_2)
  qed
qed

lemma array_split_2:
  "array_split xs 2 = [take ((length xs + 1) div 2) xs, drop ((length xs + 1) div 2) xs]"
proof -
  have "length xs - (length xs + 1) div 2 = length xs div 2" by presburger
  then show ?thesis by (simp add: array_split_def section_sizes_2)
qed

lemma third_sizes_sum:
  "(m div 3 + (if 0 < m mod 3 then 1 else 0)) + (m div 3 + (if 1 < m mod 3 then 1 else 0))
     + m div 3 = (m::nat)"
proof -
  have "m mod 3 = 0 \<or> m mod 3 = 1 \<or> m mod 3 = 2" by presburger
  then show ?thesis by (elim disjE) (simp_all, presburger+)
qed

lemma array_split_3:
  fixes xs :: "'a list"
  defines "a \<equiv> length xs div 3 + (if 0 < length xs mod 3 then 1 else 0)"
    and "b \<equiv> length xs div 3 + (if 1 < length xs mod 3 then 1 else 0)"
  shows "array_split xs 3 = [take a xs, take b (drop a xs), drop (a + b) xs]"
proof -
  have "a + b + length xs div 3 = length xs"
    unfolding a_def b_def by (rule third_sizes_sum)
  then have "length (drop b (drop a xs)) = length xs div 3" by simp
  then have "take (length xs div 3) (drop b (drop a xs)) = drop (a + b) xs"
    by (simp add: add.commute)
  then show ?thesis
    unfolding array_split_def section_sizes_3 a_def b_def by simp
qed


lemma mset_complement:
  assumes "distinct xs" "distinct t" "set t \<subseteq> set xs"
  shows "mset (filter (\<lambda>i. i \<notin> set t) xs @ t) = mset xs"
proof -
  have "set (filter (\<lambda>i. i \<in> set t) xs) = set t" using assms(3) by auto
  moreover have "distinct (filter (\<lambda>i. i \<in> set t) xs)" using assms(1) by simp
  ultimately have "mset (filter (\<lambda>i. i \<in> set t) xs) = mset t"
    using assms(2) set_eq_iff_mset_eq_distinct[of "filter (\<lambda>i. i \<in> set t) xs" t] by blast
  moreover have "mset xs = filter_mset (\<lambda>i. i \<in> set t) (mset xs)
                         + filter_mset (\<lambda>i. \<not> i \<in> set t) (mset xs)"
    by (rule multiset_partition)
  ultimately show ?thesis by (simp add: add.commute)
qed

lemma kfold_split_3:
  assumes "3 \<le> m"
  shows "kfold_split 3 m =
     Inr (map (\<lambda>t. (filter (\<lambda>i. i \<notin> set t) [0..<m], t)) (array_split [0..<m] 3))"
  using assms by (simp add: kfold_split_def arange_def array_split_def)

lemma array_split_3_upt:
  fixes m :: nat
  defines "a \<equiv> m div 3 + (if 0 < m mod 3 then 1 else 0)"
    and "b \<equiv> m div 3 + (if 1 < m mod 3 then 1 else 0)"
  shows "array_split [0..<m] 3 = [[0..<a], [a..<a + b], [a + b..<m]]"
proof -
  have le: "a + b \<le> m" using third_sizes_sum[of m] unfolding a_def b_def by linarith
  have "take a [0..<m] = [0..<a]" using le by (simp add: take_upt)
  moreover have "take b (drop a [0..<m]) = [a..<a + b]" using le by (simp add: take_upt)
  moreover have "drop (a + b) [0..<m] = [a + b..<m]" by simp
  ultimately show ?thesis
    using array_split_3[of "[0..<m]"] unfolding a_def b_def by simp
qed


lemma third_bounds:
  "third_start m 0 = 0"
  "third_start m 1 = m div 3 + (if 0 < m mod 3 then 1 else 0)"
  "third_start m 2 = m div 3 + (if 0 < m mod 3 then 1 else 0)
                      + (m div 3 + (if 1 < m mod 3 then 1 else 0))"
  "third_start m 2 + third_size m 2 = m"
proof -
  show "third_start m 0 = 0" by (simp add: third_start_def)
  show "third_start m 1 = m div 3 + (if 0 < m mod 3 then 1 else 0)"
    unfolding third_start_def min_def by simp
  have r: "m mod 3 = 0 \<or> m mod 3 = 1 \<or> m mod 3 = 2" by linarith
  show "third_start m 2 = m div 3 + (if 0 < m mod 3 then 1 else 0)
                      + (m div 3 + (if 1 < m mod 3 then 1 else 0))"
    unfolding third_start_def min_def using r by (elim disjE) simp_all
  have "m = 3 * (m div 3) + m mod 3" by simp
  moreover have "third_start m 2 + third_size m 2 = 3 * (m div 3) + m mod 3"
    unfolding third_start_def third_size_def min_def using r by (elim disjE) simp_all
  ultimately show "third_start m 2 + third_size m 2 = m" by simp
qed

lemma array_split_3_blocks:
  "array_split [0..<m] 3 = [third_block m 0, third_block m 1, third_block m 2]"
proof -
  have "third_block m 0 = [0..<m div 3 + (if 0 < m mod 3 then 1 else 0)]"
    by (simp add: third_block_def third_bounds(1) third_size_def)
  moreover have "third_block m 1 = [m div 3 + (if 0 < m mod 3 then 1 else 0)..<
       m div 3 + (if 0 < m mod 3 then 1 else 0) + (m div 3 + (if 1 < m mod 3 then 1 else 0))]"
    unfolding third_block_def third_bounds(2) by (simp add: third_size_def)
  moreover have "third_block m 2 =
     [m div 3 + (if 0 < m mod 3 then 1 else 0) + (m div 3 + (if 1 < m mod 3 then 1 else 0))..<m]"
    unfolding third_block_def third_bounds(4) by (simp only: third_bounds(3))
  ultimately show ?thesis by (simp only: array_split_3_upt)
qed

lemma third_block_props:
  assumes "k < 3"
  shows "distinct (third_block m k)" "set (third_block m k) \<subseteq> set [0..<m]"
    "length (third_block m k) = third_size m k"
proof -
  have "third_block m k \<in> set (array_split [0..<m] 3)"
  proof -
    from assms consider "k = 0" | "k = 1" | "k = 2" by linarith
    then show ?thesis by cases (simp_all add: array_split_3_blocks)
  qed
  then have "third_block m k \<in> set [[0..<m div 3 + (if 0 < m mod 3 then 1 else 0)],
      [m div 3 + (if 0 < m mod 3 then 1 else 0)..<
       m div 3 + (if 0 < m mod 3 then 1 else 0) + (m div 3 + (if 1 < m mod 3 then 1 else 0))],
      [m div 3 + (if 0 < m mod 3 then 1 else 0) + (m div 3 + (if 1 < m mod 3 then 1 else 0))..<m]]"
    by (simp only: array_split_3_upt)
  moreover have "m div 3 + (if 0 < m mod 3 then 1 else 0)
                 + (m div 3 + (if 1 < m mod 3 then 1 else 0)) \<le> m"
    using third_sizes_sum[of m] by linarith
  ultimately show "set (third_block m k) \<subseteq> set [0..<m]" by auto
  show "distinct (third_block m k)" by (simp add: third_block_def)
  show "length (third_block m k) = third_size m k" by (simp add: third_block_def)
qed

lemma kfold_pair:
  assumes "3 \<le> m" "k \<in> {0, 1, 2}"
  shows "\<exists>pairs. kfold_split 3 m = Inr pairs
           \<and> py_getitem pairs k
               = Inr (filter (\<lambda>i. i \<notin> set (third_block m (nat k))) [0..<m], third_block m (nat k))"
proof -
  let ?pairs = "map (\<lambda>t. (filter (\<lambda>i. i \<notin> set t) [0..<m], t))
                  [third_block m 0, third_block m 1, third_block m 2]"
  have "kfold_split 3 m = Inr ?pairs"
    using assms(1) by (simp only: kfold_split_3 array_split_3_blocks)
  moreover have "py_getitem ?pairs k
       = Inr (filter (\<lambda>i. i \<notin> set (third_block m (nat k))) [0..<m], third_block m (nat k))"
    using assms(2) by (auto simp: py_getitem_def)
  ultimately show ?thesis by blast
qed

subsection \<open>The loop over the outer folds\<close>

lemma loop_body_result:
  assumes "kfold_split 3 (length f) = Inr pairs" "py_getitem pairs k = Inr (tr, vt)"
  shows "loop_body k v f =
     Inr \<lparr>train_trials = train_trials v @ map ((!) f) tr,
          valid_trials = valid_trials v @ map ((!) f) (drop ((length vt + 1) div 2) vt),
          test_trials = test_trials v @ map ((!) f) (take ((length vt + 1) div 2) vt)\<rparr>"
  using assms by (simp add: loop_body_def array_split_2 Let_def)

lemma loop_body_thirds:
  assumes "3 \<le> length f" "k \<in> {0, 1, 2}"
  shows "loop_body k v f =
     Inr \<lparr>train_trials = train_trials v
             @ map ((!) f) (filter (\<lambda>i. i \<notin> set (third_block (length f) (nat k))) [0..<length f]),
          valid_trials = valid_trials v
             @ map ((!) f) (drop ((third_size (length f) (nat k) + 1) div 2)
                                 (third_block (length f) (nat k))),
          test_trials = test_trials v
             @ map ((!) f) (take ((third_size (length f) (nat k) + 1) div 2)
                                 (third_block (length f) (nat k)))\<rparr>"
proof -
  have k3: "nat k < 3" using assms(2) by auto
  obtain pairs where p: "kfold_split 3 (length f) = Inr pairs"
    "py_getitem pairs k = Inr (filter (\<lambda>i. i \<notin> set (third_block (length f) (nat k))) [0..<length f],
                                third_block (length f) (nat k))"
    using kfold_pair[OF assms] by blast
  show ?thesis
    using loop_body_result[OF p, of v] by (simp only: third_block_props(3)[OF k3])
qed

lemma mset_fold_parts:
  assumes "k < 3"
  shows "mset (map ((!) f) (filter (\<lambda>i. i \<notin> set (third_block (length f) k)) [0..<length f]))
       + mset (map ((!) f) (drop h (third_block (length f) k)))
       + mset (map ((!) f) (take h (third_block (length f) k))) = mset f"
proof -
  let ?vt = "third_block (length f) k"
  let ?tr = "filter (\<lambda>i. i \<notin> set ?vt) [0..<length f]"
  have "mset (?tr @ ?vt) = mset [0..<length f]"
    by (rule mset_complement)
       (simp, rule third_block_props(1)[OF assms], rule third_block_props(2)[OF assms])
  then have "mset (map ((!) f) (?tr @ ?vt)) = mset (map ((!) f) [0..<length f])"
    by (simp only: mset_map)
  then have "mset (map ((!) f) ?tr) + mset (map ((!) f) ?vt) = mset f"
    by (simp add: map_nth)
  moreover have "mset (map ((!) f) ?vt)
       = mset (map ((!) f) (drop h ?vt)) + mset (map ((!) f) (take h ?vt))"
  proof -
    have "mset (map ((!) f) ?vt) = mset (map ((!) f) (take h ?vt @ drop h ?vt))" by simp
    then show ?thesis by (simp only: map_append mset_append add.commute)
  qed
  ultimately show ?thesis by (simp add: add.assoc)
qed

lemma for_out_folds_partition:
  assumes "k \<in> {0, 1, 2}" "\<forall>f \<in> set fs. 3 \<le> length f"
  shows "\<exists>v'. for_out_folds k fs v = Inr v'
           \<and> mset (train_trials v') + mset (valid_trials v') + mset (test_trials v')
               = mset (train_trials v) + mset (valid_trials v) + mset (test_trials v)
                 + mset (concat fs)"
  using assms(2)
proof (induction fs arbitrary: v)
  case Nil
  then show ?case by simp
next
  case (Cons f fs)
  have k3: "nat k < 3" using assms(1) by auto
  have len: "3 \<le> length f" using Cons.prems by simp
  obtain v1 where v1: "loop_body k v f = Inr v1"
    and m1: "mset (train_trials v1) + mset (valid_trials v1) + mset (test_trials v1)
           = mset (train_trials v) + mset (valid_trials v) + mset (test_trials v) + mset f"
  proof -
    let ?h = "(third_size (length f) (nat k) + 1) div 2"
    let ?v1 = "\<lparr>train_trials = train_trials v
             @ map ((!) f) (filter (\<lambda>i. i \<notin> set (third_block (length f) (nat k))) [0..<length f]),
          valid_trials = valid_trials v
             @ map ((!) f) (drop ?h (third_block (length f) (nat k))),
          test_trials = test_trials v
             @ map ((!) f) (take ?h (third_block (length f) (nat k)))\<rparr>"
    have a: "loop_body k v f = Inr ?v1" using len assms(1) by (rule loop_body_thirds)
    have b: "mset (train_trials ?v1) + mset (valid_trials ?v1) + mset (test_trials ?v1)
           = mset (train_trials v) + mset (valid_trials v) + mset (test_trials v) + mset f"
      using mset_fold_parts[OF k3, of f ?h] by (simp add: ac_simps)
    from a b that show ?thesis by blast
  qed
  from Cons.prems have "\<forall>f \<in> set fs. 3 \<le> length f" by simp
  from Cons.IH[OF this, of v1] obtain v' where v': "for_out_folds k fs v1 = Inr v'"
    and m': "mset (train_trials v') + mset (valid_trials v') + mset (test_trials v')
           = mset (train_trials v1) + mset (valid_trials v1) + mset (test_trials v1)
             + mset (concat fs)"
    by blast
  have r: "for_out_folds k (f # fs) v = Inr v'" using v1 v' by simp
  have m: "mset (train_trials v') + mset (valid_trials v') + mset (test_trials v')
         = mset (train_trials v) + mset (valid_trials v) + mset (test_trials v)
           + mset (concat (f # fs))"
    using m' m1 by (simp add: ac_simps)
  from r m show ?case by blast
qed

lemma outer_folds_blocks:
  "array_split (arange n) 3 = [third_block n 0, third_block n 1, third_block n 2]"
  unfolding arange_def by (rule array_split_3_blocks)

lemma upt_three_parts:
  assumes "a + b \<le> (n::nat)"
  shows "concat [[0..<a], [a..<a + b], [a + b..<n]] = [0..<n]"
proof -
  have x: "[0..<a] @ [a..<a + b] = [0..<a + b]"
    using upt_add_eq_append[of 0 a b] by simp
  have y: "[0..<a + b] @ [a + b..<n] = [0..<n]"
    using upt_add_eq_append[of 0 "a + b" "n - (a + b)"] assms by simp
  have "concat [[0..<a], [a..<a + b], [a + b..<n]]
        = ([0..<a] @ [a..<a + b]) @ [a + b..<n]" by simp
  also have "\<dots> = [0..<n]" by (simp only: x y)
  finally show ?thesis .
qed

lemma concat_third_blocks:
  "concat [third_block n 0, third_block n 1, third_block n 2] = [0..<n]"
proof -
  define a where "a = n div 3 + (if 0 < n mod 3 then 1 else 0)"
  define b where "b = n div 3 + (if 1 < n mod 3 then 1 else 0)"
  have le: "a + b \<le> n" using third_sizes_sum[of n] unfolding a_def b_def by linarith
  have "[third_block n 0, third_block n 1, third_block n 2] = array_split [0..<n] 3"
    by (rule array_split_3_blocks[symmetric])
  also have "\<dots> = [[0..<a], [a..<a + b], [a + b..<n]]"
    unfolding a_def b_def by (rule array_split_3_upt)
  finally show ?thesis using upt_three_parts[OF le] by (simp only:)
qed

lemma third_size_bounds:
  "third_size n 2 \<le> third_size n 1" "third_size n 1 \<le> third_size n 0"
  "third_size n 0 \<le> third_size n 2 + 1" "third_size n 2 = n div 3"
  by (simp_all add: third_size_def)

lemma accumulate_trials_partition:
  assumes "9 \<le> total_trials_num d" "k \<in> {0, 1, 2}"
  shows "\<exists>v. accumulate_trials k d = Inr v
          \<and> mset (train_trials v @ valid_trials v @ test_trials v)
              = mset [0..<total_trials_num d]"
proof -
  let ?n = "total_trials_num d"
  let ?fs = "[third_block ?n 0, third_block ?n 1, third_block ?n 2]"
  have q: "3 \<le> ?n div 3" using assms(1) by linarith
  have "\<forall>f \<in> set ?fs. 3 \<le> length f"
    using q by (simp add: third_block_props(3) third_size_def)
  from for_out_folds_partition[OF assms(2) this, of init_vars]
  obtain v where v: "for_out_folds k ?fs init_vars = Inr v"
    and m: "mset (train_trials v) + mset (valid_trials v) + mset (test_trials v)
          = mset (train_trials init_vars) + mset (valid_trials init_vars)
            + mset (test_trials init_vars) + mset (concat ?fs)"
    by blast
  have a: "accumulate_trials k d = Inr v"
    using v by (simp add: accumulate_trials_def outer_folds_blocks Let_def)
  have "mset (concat ?fs) = mset [0..<?n]" by (simp only: concat_third_blocks)
  then have b: "mset (train_trials v @ valid_trials v @ test_trials v) = mset [0..<?n]"
    using m by (simp add: init_vars_def ac_simps)
  from a b show ?thesis by blast
qed

text \<open>
  Claim C8.  For the direction column [+1,+1,-1,-1,+1,+1,-1] the reversal detection gives
  the raw change points 1, 3, 5; every second one from offset 1 is 3; the boundary list is
  [0,3,7], which makes 2 trials of 3 and 4 rows.
\<close>

theorem scenario_boundaries:
  "direction_change_idx [1, 1, - 1, - 1, 1, 1, - 1 :: int] = [1, 3, 5]
   \<and> slice_1_2 (direction_change_idx [1, 1, - 1, - 1, 1, 1, - 1 :: int]) = [3]
   \<and> trial_change_idx [1, 1, - 1, - 1, 1, 1, - 1 :: int] = [0, 3, 7]
   \<and> total_trials_num [1, 1, - 1, - 1, 1, 1, - 1 :: int] = 2
   \<and> trial_lengths (trial_change_idx [1, 1, - 1, - 1, 1, 1, - 1 :: int]) = [3, 4]"
  by code_simp

subsection \<open>The train, valid and test lists\<close>

lemma third_size_sum: "third_size n 0 + third_size n 1 + third_size n 2 = n"
proof -
  have "\<not> 2 < n mod 3" by linarith
  then show ?thesis using third_sizes_sum[of n] by (simp add: third_size_def)
qed

lemma outer_folds_ranges:
  "array_split (arange n) 3
     = [[0..<third_size n 0], [third_size n 0..<third_size n 0 + third_size n 1],
        [third_size n 0 + third_size n 1..<third_size n 0 + third_size n 1 + third_size n 2]]"
proof -
  have "[third_size n 0 + third_size n 1..<third_size n 0 + third_size n 1 + third_size n 2]
        = [third_size n 0 + third_size n 1..<n]"
    by (simp only: third_size_sum)
  then show ?thesis
    using array_split_3_upt[of n] by (simp add: arange_def third_size_def)
qed

text \<open>
  Claim C3 (as amended).  The three outer folds are consecutive ranges of trial indices
  whose sizes differ by at most 1, the earlier folds taking the leftover trials.  When
  the recording has at least 9 trials (so that every outer fold has the 3 trials that the
  inner 3-fold split needs) and the fold index is 0, 1 or 2, the loop returns train, valid
  and test lists in which every trial index below the trial count occurs exactly once.
\<close>

theorem trial_lists_partition:
  "array_split (arange (total_trials_num d)) 3
     = [[0..<third_size (total_trials_num d) 0],
        [third_size (total_trials_num d) 0
           ..<third_size (total_trials_num d) 0 + third_size (total_trials_num d) 1],
        [third_size (total_trials_num d) 0 + third_size (total_trials_num d) 1
           ..<third_size (total_trials_num d) 0 + third_size (total_trials_num d) 1
              + third_size (total_trials_num d) 2]]
   \<and> third_size (total_trials_num d) 0 + third_size (total_trials_num d) 1
       + third_size (total_trials_num d) 2 = total_trials_num d
   \<and> third_size (total_trials_num d) 2 \<le> third_size (total_trials_num d) 1
   \<and> third_size (total_trials_num d) 1 \<le> third_size (total_trials_num d) 0
   \<and> third_size (total_trials_num d) 0 \<le> third_size (total_trials_num d) 2 + 1
   \<and> (9 \<le> total_trials_num d \<longrightarrow> split_no \<in> {0, 1, 2} \<longrightarrow>
        (\<exists>v. accumulate_trials split_no d = Inr v
           \<and> mset (train_trials v @ valid_trials v @ test_trials v)
               = mset [0..<total_trials_num d]
           \<and> distinct (train_trials v @ valid_trials v @ test_trials v)
           \<and> set (train_trials v) \<union> set (valid_trials v) \<union> set (test_trials v)
               = {0..<total_trials_num d}))"
proof -
  let ?n = "total_trials_num d"
  have sum: "third_size ?n 0 + third_size ?n 1 + third_size ?n 2 = ?n"
    by (rule third_size_sum)
  have part: "\<exists>v. accumulate_trials split_no d = Inr v
           \<and> mset (train_trials v @ valid_trials v @ test_trials v) = mset [0..<?n]
           \<and> distinct (train_trials v @ valid_trials v @ test_trials v)
           \<and> set (train_trials v) \<union> set (valid_trials v) \<union> set (test_trials v) = {0..<?n}"
    if h: "9 \<le> ?n" "split_no \<in> {0, 1, 2}"
  proof -
    from accumulate_trials_partition[OF h] obtain v where
      a: "accumulate_trials split_no d = Inr v" and
      m: "mset (train_trials v @ valid_trials v @ test_trials v) = mset [0..<?n]"
      by blast
    have "distinct (train_trials v @ valid_trials v @ test_trials v)"
      using mset_eq_imp_distinct_iff[OF m] by simp
    moreover have "set (train_trials v @ valid_trials v @ test_trials v) = set [0..<?n]"
      using m by (rule mset_eq_setD)
    then have "set (train_trials v) \<union> set (valid_trials v) \<union> set (test_trials v) = {0..<?n}"
      by (simp add: Un_assoc)
    ultimately show ?thesis using a m by blast
  qed
  show ?thesis
    using outer_folds_ranges[of ?n] sum third_size_bounds(1,2,3)[of ?n] part by blast
qed

theorem trial_lists_partition_witness:
  "9 \<le> total_trials_num flip_directions \<and> (0::int) \<in> {0, 1, 2}
   \<and> (\<exists>v. accumulate_trials 0 flip_directions = Inr v
           \<and> mset (train_trials v @ valid_trials v @ test_trials v)
               = mset [0..<total_trials_num flip_directions]
           \<and> distinct (train_trials v @ valid_trials v @ test_trials v)
           \<and> set (train_trials v) \<union> set (valid_trials v) \<union> set (test_trials v)
               = {0..<total_trials_num flip_directions})"
proof -
  have h1: "9 \<le> total_trials_num flip_directions" by code_simp
  have h2: "(0::int) \<in> {0, 1, 2}" by simp
  from trial_lists_partition[of flip_directions 0] h1 h2 show ?thesis by blast
qed

theorem short_recording_counterexample:
  "[1, 1, - 1, - 1, 1, 1, - 1 :: int] \<noteq> []
   \<and> total_trials_num [1, 1, - 1, - 1, 1, 1, - 1 :: int] = 2
   \<and> array_split (arange 2) 3 = [[0], [1], []]
   \<and> accumulate_trials 0 [1, 1, - 1, - 1, 1, 1, - 1 :: int]
       = Inl (ValueError
           ''Cannot have number of splits n_splits=3 greater than the number of samples: n_samples=1.'')"
  by code_simp




text \<open>
  Claim C6.  The remainder part is cut in two in its own order: the first half, which
  gets the extra element when the length is odd, is added to the test trials, and the
  second half to the valid trials.
\<close>

theorem remainder_bisection:
  assumes "kfold_split 3 (length out_fold) = Inr pairs"
    and "py_getitem pairs split_no = Inr (train_trial, val_test_trial)"
  shows "array_split val_test_trial 2
           = [take ((length val_test_trial + 1) div 2) val_test_trial,
              drop ((length val_test_trial + 1) div 2) val_test_trial]
       \<and> length (take ((length val_test_trial + 1) div 2) val_test_trial)
           = length (drop ((length val_test_trial + 1) div 2) val_test_trial)
             + length val_test_trial mod 2
       \<and> (\<exists>v'. loop_body split_no v out_fold = Inr v'
             \<and> test_trials v' = test_trials v
                 @ map ((!) out_fold) (take ((length val_test_trial + 1) div 2) val_test_trial)
             \<and> valid_trials v' = valid_trials v
                 @ map ((!) out_fold) (drop ((length val_test_trial + 1) div 2) val_test_trial))"
proof -
  have a: "array_split val_test_trial 2
           = [take ((length val_test_trial + 1) div 2) val_test_trial,
              drop ((length val_test_trial + 1) div 2) val_test_trial]"
    by (rule array_split_2)
  have "min l ((l + 1) div 2) = l - (l + 1) div 2 + l mod 2" for l :: nat
  proof (cases "even l")
    case True
    then obtain j where "l = 2 * j" by (elim evenE)
    then show ?thesis by simp
  next
    case False
    then obtain j where "l = 2 * j + 1" by (elim oddE)
    then show ?thesis by simp
  qed
  then have b: "length (take ((length val_test_trial + 1) div 2) val_test_trial)
           = length (drop ((length val_test_trial + 1) div 2) val_test_trial)
             + length val_test_trial mod 2"
    by simp
  have c: "\<exists>v'. loop_body split_no v out_fold = Inr v'
             \<and> test_trials v' = test_trials v
                 @ map ((!) out_fold) (take ((length val_test_trial + 1) div 2) val_test_trial)
             \<and> valid_trials v' = valid_trials v
                 @ map ((!) out_fold) (drop ((length val_test_trial + 1) div 2) val_test_trial)"
    using loop_body_result[OF assms, of v] by simp
  from a b c show ?thesis by blast
qed

theorem remainder_bisection_witness:
  "kfold_split 3 (length [10, 11, 12, 13, 14, 15, 16, 17, 18 :: nat])
     = Inr [([3, 4, 5, 6, 7, 8], [0, 1, 2]), ([0, 1, 2, 6, 7, 8], [3, 4, 5]),
            ([0, 1, 2, 3, 4, 5], [6, 7, 8])]
   \<and> py_getitem [([3, 4, 5, 6, 7, 8], [0, 1, 2]), ([0, 1, 2, 6, 7, 8], [3, 4, 5]),
                  ([0, 1, 2, 3, 4, 5], [6, 7, 8 :: nat])] 1
       = Inr ([0, 1, 2, 6, 7, 8 :: nat], [3, 4, 5])
   \<and> (\<exists>v'. loop_body 1 init_vars [10, 11, 12, 13, 14, 15, 16, 17, 18] = Inr v'
          \<and> test_trials v' = [13, 14] \<and> valid_trials v' = [15])"
proof -
  have h1: "kfold_split 3 (length [10, 11, 12, 13, 14, 15, 16, 17, 18 :: nat])
     = Inr [([3, 4, 5, 6, 7, 8], [0, 1, 2]), ([0, 1, 2, 6, 7, 8], [3, 4, 5]),
            ([0, 1, 2, 3, 4, 5], [6, 7, 8])]"
    by code_simp
  have h2: "py_getitem [([3, 4, 5, 6, 7, 8], [0, 1, 2]), ([0, 1, 2, 6, 7, 8], [3, 4, 5]),
                  ([0, 1, 2, 3, 4, 5], [6, 7, 8 :: nat])] 1
       = Inr ([0, 1, 2, 6, 7, 8 :: nat], [3, 4, 5])"
    by code_simp
  from remainder_bisection[OF h1 h2, of init_vars] obtain v' where
    "loop_body 1 init_vars [10, 11, 12, 13, 14, 15, 16, 17, 18] = Inr v'"
    "test_trials v' = test_trials init_vars
        @ map ((!) [10, 11, 12, 13, 14, 15, 16, 17, 18]) (take ((length [3, 4, 5 :: nat] + 1) div 2) [3, 4, 5])"
    "valid_trials v' = valid_trials init_vars
        @ map ((!) [10, 11, 12, 13, 14, 15, 16, 17, 18]) (drop ((length [3, 4, 5 :: nat] + 1) div 2) [3, 4, 5])"
    by blast
  then have "loop_body 1 init_vars [10, 11, 12, 13, 14, 15, 16, 17, 18] = Inr v'
          \<and> test_trials v' = [13, 14] \<and> valid_trials v' = [15]"
    by (simp add: init_vars_def)
  with h1 h2 show ?thesis by blast
qed

subsection \<open>Discontinuity offsets\<close>





subsection \<open>Shuffled labels\<close>

lemma shuffle_from_perm:
  assumes "\<forall>i. draw i \<le> i" "i < length xs"
  shows "mset (shuffle_from draw i xs) = mset xs"
  using assms(2)
proof (induction i arbitrary: xs)
  case 0
  then show ?case by simp
next
  case (Suc i)
  let ?j = "draw (Suc i)"
  let ?ys = "xs[Suc i := xs ! ?j, ?j := xs ! Suc i]"
  have j: "?j < length xs" using assms(1) Suc.prems by (meson le_less_trans)
  have "mset ?ys = mset xs" using j Suc.prems by (rule mset_swap)
  moreover have "i < length ?ys" using Suc.prems by simp
  then have "mset (shuffle_from draw i ?ys) = mset ?ys" by (rule Suc.IH)
  ultimately show ?case by (simp add: Let_def)
qed

lemma shuffle_perm:
  assumes "\<forall>i. draw i \<le> i"
  shows "mset (shuffle draw xs) = mset xs"
proof (cases "xs = []")
  case True
  then show ?thesis by (simp add: shuffle_def)
next
  case False
  then have "length xs - 1 < length xs" by simp
  then show ?thesis unfolding shuffle_def by (rule shuffle_from_perm[OF assms])
qed

lemma mset_reindex:
  assumes "mset p = mset [0..<length xs]"
  shows "mset (map ((!) xs) p) = mset xs"
proof -
  have "mset (map ((!) xs) p) = image_mset ((!) xs) (mset p)" by simp
  also have "\<dots> = image_mset ((!) xs) (mset [0..<length xs])" by (simp only: assms)
  also have "\<dots> = mset (map ((!) xs) [0..<length xs])" by simp
  also have "\<dots> = mset xs" by (simp only: map_nth)
  finally show ?thesis .
qed

text \<open>
  Claim C10.  When every draw of the seeded generator stays within its bound, building
  the dataset with corrupted labels leaves the neural tensor as it is and replaces the
  behaviour tensor by a permutation of its rows: same length, same multiset of rows, read
  off through a permutation of the row numbers.  The result depends on the seed and the
  loaded labels only, so two constructions with the same seed give the same labels.
\<close>

theorem corrupt_init_permutes_labels:
  assumes "\<forall>i. pcg64 seed (length (index ds)) i \<le> i"
  shows "neural (corrupt_init pcg64 seed ds) = neural ds
       \<and> length (index (corrupt_init pcg64 seed ds)) = length (index ds)
       \<and> mset (index (corrupt_init pcg64 seed ds)) = mset (index ds)
       \<and> (\<exists>p. mset p = mset [0..<length (index ds)]
              \<and> index (corrupt_init pcg64 seed ds) = map ((!) (index ds)) p)
       \<and> (index ds' = index ds
            \<longrightarrow> index (corrupt_init pcg64 seed ds') = index (corrupt_init pcg64 seed ds))"
proof -
  let ?p = "shuffle (pcg64 seed (length (index ds))) (arange (length (index ds)))"
  have p: "mset ?p = mset [0..<length (index ds)]"
    using shuffle_perm[OF assms, of "arange (length (index ds))"] by (simp add: arange_def)
  have i: "index (corrupt_init pcg64 seed ds) = map ((!) (index ds)) ?p"
    by (simp add: corrupt_init_def Let_def)
  have m: "mset (index (corrupt_init pcg64 seed ds)) = mset (index ds)"
    unfolding i using p by (rule mset_reindex)
  have l: "length (index (corrupt_init pcg64 seed ds)) = length (index ds)"
    using m by (rule mset_eq_length)
  have n: "neural (corrupt_init pcg64 seed ds) = neural ds"
    by (simp add: corrupt_init_def Let_def)
  have d: "index ds' = index ds
            \<longrightarrow> index (corrupt_init pcg64 seed ds') = index (corrupt_init pcg64 seed ds)"
    by (simp add: corrupt_init_def Let_def)
  from n l m p i d show ?thesis by blast
qed

theorem corrupt_init_permutes_labels_witness:
  "neural (corrupt_init example_draws 7 flip_dataset) = neural flip_dataset
   \<and> length (index (corrupt_init example_draws 7 flip_dataset)) = length (index flip_dataset)
   \<and> mset (index (corrupt_init example_draws 7 flip_dataset)) = mset (index flip_dataset)"
proof -
  have "example_draws 7 (length (index flip_dataset)) i \<le> i" for i
    unfolding example_draws_def by (simp add: less_Suc_eq_le[symmetric])
  then have h: "\<forall>i. example_draws 7 (length (index flip_dataset)) i \<le> i" by blast
  from corrupt_init_permutes_labels[of example_draws 7 flip_dataset, OF h]
  show ?thesis by blast
qed

subsection \<open>The neighbour counts of the decoder\<close>

text \<open>
  Claim C9.  The neighbour counts that \<open>decode\<close> sweeps: the six points from 1 to 10,
  rounded down, are 1, 2, 4, 6, 8, 10, and their squares 1, 4, 16, 36, 64, 100 are the
  counts, which are not the squares 1, 4, 9, 16, 25, 36 of 1 to 6.  The result has an
  error entry and an R2 entry for each of these counts.
\<close>

theorem decode_neighbour_counts:
  "linspace_int 1 10 6 = [1, 2, 4, 6, 8, 10]
   \<and> nn = [1, 4, 16, 36, 64, 100]
   \<and> nn \<noteq> [1, 4, 9, 16, 25, 36]
   \<and> map fst (decode (\<lambda>n. n) (\<lambda>n. n))
       = [''n1_err'', ''n1_r2'', ''n4_err'', ''n4_r2'', ''n16_err'', ''n16_r2'',
          ''n36_err'', ''n36_r2'', ''n64_err'', ''n64_r2'', ''n100_err'', ''n100_r2'']"
  by code_simp

subsection \<open>Selection and reassembly\<close>

lemma train_part_nonempty:
  assumes "3 \<le> m" "k < 3"
  shows "filter (\<lambda>i. i \<notin> set (third_block m k)) [0..<m] \<noteq> []"
proof -
  let ?r = "third_block m k"
  let ?t = "filter (\<lambda>i. i \<notin> set ?r) [0..<m]"
  have "mset (?t @ ?r) = mset [0..<m]"
    by (rule mset_complement)
       (simp, rule third_block_props(1)[OF assms(2)], rule third_block_props(2)[OF assms(2)])
  then have "length (?t @ ?r) = length [0..<m]" by (rule mset_eq_length)
  then have l: "length ?t + length ?r = m" by simp
  have "length ?r \<le> m div 3 + 1"
    by (simp add: third_block_props(3)[OF assms(2)] third_size_def)
  moreover have "m div 3 + 1 < m" using assms(1) by linarith
  ultimately have "0 < length ?t" using l by linarith
  then show ?thesis by simp
qed

lemma for_out_folds_train_nonempty:
  assumes "k \<in> {0, 1, 2}" "\<forall>f \<in> set fs. 3 \<le> length f"
    and "fs \<noteq> [] \<or> train_trials v \<noteq> []"
    and "for_out_folds k fs v = Inr v'"
  shows "train_trials v' \<noteq> []"
  using assms(2,3,4)
proof (induction fs arbitrary: v)
  case Nil
  then show ?case by simp
next
  case (Cons f fs)
  have k3: "nat k < 3" using assms(1) by auto
  have len: "3 \<le> length f" using Cons.prems(1) by simp
  let ?tr = "filter (\<lambda>i. i \<notin> set (third_block (length f) (nat k))) [0..<length f]"
  obtain v1 where v1: "loop_body k v f = Inr v1"
    and t1: "train_trials v1 = train_trials v @ map ((!) f) ?tr"
    using loop_body_thirds[OF len assms(1), of v] by simp
  have "?tr \<noteq> []" using len k3 by (rule train_part_nonempty)
  then have ne: "train_trials v1 \<noteq> []" using t1 by simp
  have rest: "for_out_folds k fs v1 = Inr v'" using Cons.prems(3) v1 by simp
  have "\<forall>f \<in> set fs. 3 \<le> length f" using Cons.prems(1) by simp
  from Cons.IH[OF this _ rest] ne show ?case by blast
qed

lemma accumulate_trials_train_nonempty:
  assumes "9 \<le> total_trials_num d" "k \<in> {0, 1, 2}" "accumulate_trials k d = Inr v"
  shows "train_trials v \<noteq> []"
proof -
  let ?n = "total_trials_num d"
  let ?fs = "[third_block ?n 0, third_block ?n 1, third_block ?n 2]"
  have q: "3 \<le> ?n div 3" using assms(1) by linarith
  have a: "\<forall>f \<in> set ?fs. 3 \<le> length f"
    using q by (simp add: third_block_props(3) third_size_def)
  have b: "for_out_folds k ?fs init_vars = Inr v"
    using assms(3) by (simp add: accumulate_trials_def outer_folds_blocks Let_def)
  have c: "?fs \<noteq> [] \<or> train_trials init_vars \<noteq> []" by simp
  from for_out_folds_train_nonempty[OF assms(2) a c b] show ?thesis .
qed

lemma trial_slices_in_range:
  assumes "\<forall>i \<in> set ts. i + 1 < length tci"
  shows "trial_slices tci ts = Inr (map (\<lambda>i. (tci ! i, tci ! (i + 1))) ts)"
  using assms by (induction ts) (simp_all add: np_getitem_def)

lemma reassemble_in_range:
  assumes "ts \<noteq> []" "\<forall>i \<in> set ts. i + 1 < length tci"
  shows "reassemble tci (IntSeq ts) ds =
     (Inr (), ds\<lparr>selected_indices := Some (map (\<lambda>i. (tci ! i, tci ! (i + 1))) ts),
                neural := concat (map (\<lambda>i. py_slice (neural ds) (tci ! i) (tci ! (i + 1))) ts),
                index := concat (map (\<lambda>i. py_slice (index ds) (tci ! i) (tci ! (i + 1))) ts),
                concat_idx := Some (concat_offsets tci ts)\<rparr>)"
  using assms(1)
  by (simp add: reassemble_def selected_slices_def trial_slices_in_range[OF assms(2)]
        torch_cat_def Let_def comp_def)

lemma resolved_in_range:
  assumes "set (train_trials v) \<union> set (valid_trials v) \<union> set (test_trials v) = {0..<n}"
    and "resolve_split split n v = Inr (IntSeq ts)"
  shows "set ts \<subseteq> {0..<n}"
proof -
  have tr: "set (train_trials v) \<subseteq> {0..<n}" and va: "set (valid_trials v) \<subseteq> {0..<n}"
    and te: "set (test_trials v) \<subseteq> {0..<n}"
    using assms(1) by blast+
  consider "ts = train_trials v" | "ts = valid_trials v" | "ts = test_trials v"
    | "ts = arange n" | "ts = train_trials v @ valid_trials v"
    using assms(2)
    by (auto simp: resolve_split_def np_concatenate_def split: if_splits)
  then show ?thesis
  proof cases
    case 1 then show ?thesis using tr by simp
  next
    case 2 then show ?thesis using va by simp
  next
    case 3 then show ?thesis using te by simp
  next
    case 4 then show ?thesis by (simp add: arange_def)
  next
    case 5 then show ?thesis using tr va by simp
  qed
qed

text \<open>
  Claim C1 (as amended).  For a recording with at least 9 trials and a fold index of 0, 1
  or 2, the split selects by its name: train the accumulated train list, valid the valid
  list, test the test list, all the full ascending range of trials, and wo_test, when
  the valid list is not empty, the train list followed by the valid list, in the order of
  accumulation and not sorted.  Whenever the selected list can index and is not empty,
  the split succeeds and the neural and the behaviour tensor are the concatenation of
  exactly the row segments of the selected trials, in the order of that list.
\<close>

theorem split_resolution_and_reassembly:
  assumes "9 \<le> total_trials_num (map snd (index ds))" and "split_no \<in> {0, 1, 2}"
  shows "\<exists>v. accumulate_trials split_no (map snd (index ds)) = Inr v
     \<and> resolve_split ''train'' (total_trials_num (map snd (index ds))) v
         = Inr (IntSeq (train_trials v))
     \<and> resolve_split ''valid'' (total_trials_num (map snd (index ds))) v
         = Inr (IntSeq (valid_trials v))
     \<and> resolve_split ''test'' (total_trials_num (map snd (index ds))) v
         = Inr (IntSeq (test_trials v))
     \<and> resolve_split ''all'' (total_trials_num (map snd (index ds))) v
         = Inr (IntSeq [0..<total_trials_num (map snd (index ds))])
     \<and> (valid_trials v \<noteq> [] \<longrightarrow>
          resolve_split ''wo_test'' (total_trials_num (map snd (index ds))) v
            = Inr (IntSeq (train_trials v @ valid_trials v)))
     \<and> (\<forall>ts. resolve_split split (total_trials_num (map snd (index ds))) v = Inr (IntSeq ts)
            \<longrightarrow> ts \<noteq> [] \<longrightarrow>
            split_dataset split split_no ds =
              (Inr (),
               ds\<lparr>selected_indices :=
                      Some (map (\<lambda>i. (trial_change_idx (map snd (index ds)) ! i,
                                       trial_change_idx (map snd (index ds)) ! (i + 1))) ts),
                   neural :=
                      concat (map (\<lambda>i. py_slice (neural ds)
                                          (trial_change_idx (map snd (index ds)) ! i)
                                          (trial_change_idx (map snd (index ds)) ! (i + 1))) ts),
                   index :=
                      concat (map (\<lambda>i. py_slice (index ds)
                                          (trial_change_idx (map snd (index ds)) ! i)
                                          (trial_change_idx (map snd (index ds)) ! (i + 1))) ts),
                   concat_idx :=
                      Some (concat_offsets (trial_change_idx (map snd (index ds))) ts)\<rparr>))"
proof -
  let ?d = "map snd (index ds)"
  let ?n = "total_trials_num ?d"
  let ?tci = "trial_change_idx ?d"
  from accumulate_trials_partition[OF assms] obtain v where
    a: "accumulate_trials split_no ?d = Inr v" and
    m: "mset (train_trials v @ valid_trials v @ test_trials v) = mset [0..<?n]"
    by blast
  have "set (train_trials v @ valid_trials v @ test_trials v) = set [0..<?n]"
    using m by (rule mset_eq_setD)
  then have u: "set (train_trials v) \<union> set (valid_trials v) \<union> set (test_trials v) = {0..<?n}"
    by (simp only: set_append set_upt Un_assoc)
  have tne: "train_trials v \<noteq> []"
    using assms a by (rule accumulate_trials_train_nonempty)
  have len: "length ?tci = ?n + 1"
    by (simp add: total_trials_num_def trial_change_idx_def)
  have r1: "resolve_split ''train'' ?n v = Inr (IntSeq (train_trials v))"
    and r2: "resolve_split ''valid'' ?n v = Inr (IntSeq (valid_trials v))"
    and r3: "resolve_split ''test'' ?n v = Inr (IntSeq (test_trials v))"
    and r4: "resolve_split ''all'' ?n v = Inr (IntSeq [0..<?n])"
    by (simp_all add: resolve_split_def arange_def)
  have r5: "valid_trials v \<noteq> [] \<longrightarrow>
          resolve_split ''wo_test'' ?n v = Inr (IntSeq (train_trials v @ valid_trials v))"
    using tne by (simp add: resolve_split_def np_concatenate_def)
  have r6: "\<forall>ts. resolve_split split ?n v = Inr (IntSeq ts) \<longrightarrow> ts \<noteq> [] \<longrightarrow>
     split_dataset split split_no ds =
       (Inr (),
        ds\<lparr>selected_indices := Some (map (\<lambda>i. (?tci ! i, ?tci ! (i + 1))) ts),
            neural := concat (map (\<lambda>i. py_slice (neural ds) (?tci ! i) (?tci ! (i + 1))) ts),
            index := concat (map (\<lambda>i. py_slice (index ds) (?tci ! i) (?tci ! (i + 1))) ts),
            concat_idx := Some (concat_offsets ?tci ts)\<rparr>)"
  proof (intro allI impI)
    fix ts
    assume r: "resolve_split split ?n v = Inr (IntSeq ts)" and ne: "ts \<noteq> []"
    have "set ts \<subseteq> {0..<?n}" using u r by (rule resolved_in_range)
    then have rng: "\<forall>i \<in> set ts. i + 1 < length ?tci" using len by auto
    have "split_dataset split split_no ds = reassemble ?tci (IntSeq ts) ds"
      by (simp add: split_dataset_def Let_def a r)
    then show "split_dataset split split_no ds =
       (Inr (),
        ds\<lparr>selected_indices := Some (map (\<lambda>i. (?tci ! i, ?tci ! (i + 1))) ts),
            neural := concat (map (\<lambda>i. py_slice (neural ds) (?tci ! i) (?tci ! (i + 1))) ts),
            index := concat (map (\<lambda>i. py_slice (index ds) (?tci ! i) (?tci ! (i + 1))) ts),
            concat_idx := Some (concat_offsets ?tci ts)\<rparr>)"
      by (simp only: reassemble_in_range[OF ne rng])
  qed
  from a r1 r2 r3 r4 r5 r6 show ?thesis by blast
qed

lemma flip_10_accumulate:
  "accumulate_trials 0 (map snd (index flip_dataset_10))
     = Inr \<lparr>train_trials = [2, 3, 5, 6, 8, 9], valid_trials = [1], test_trials = [0, 4, 7]\<rparr>"
  by code_simp

theorem split_resolution_and_reassembly_witness:
  "resolve_split ''wo_test'' (total_trials_num (map snd (index flip_dataset_10)))
      \<lparr>train_trials = [2, 3, 5, 6, 8, 9], valid_trials = [1], test_trials = [0, 4, 7]\<rparr>
     = Inr (IntSeq [2, 3, 5, 6, 8, 9, 1])
   \<and> fst (split_dataset ''wo_test'' 0 flip_dataset_10) = Inr ()
   \<and> neural (snd (split_dataset ''wo_test'' 0 flip_dataset_10))
       = concat (map (\<lambda>i. py_slice (neural flip_dataset_10)
                           (trial_change_idx (map snd (index flip_dataset_10)) ! i)
                           (trial_change_idx (map snd (index flip_dataset_10)) ! (i + 1)))
                  [2, 3, 5, 6, 8, 9, 1])"
proof -
  let ?v = "\<lparr>train_trials = [2, 3, 5, 6, 8, 9], valid_trials = [1], test_trials = [0, 4, 7]\<rparr>"
  let ?n = "total_trials_num (map snd (index flip_dataset_10))"
  have h1: "9 \<le> ?n" by code_simp
  have h2: "(0::int) \<in> {0, 1, 2}" by simp
  from split_resolution_and_reassembly[OF h1 h2, of "''wo_test''"] obtain v where
    a: "accumulate_trials 0 (map snd (index flip_dataset_10)) = Inr v" and
    w: "valid_trials v \<noteq> [] \<longrightarrow>
          resolve_split ''wo_test'' ?n v = Inr (IntSeq (train_trials v @ valid_trials v))" and
    s: "\<forall>ts. resolve_split ''wo_test'' ?n v = Inr (IntSeq ts) \<longrightarrow> ts \<noteq> [] \<longrightarrow>
          split_dataset ''wo_test'' 0 flip_dataset_10 =
            (Inr (),
             flip_dataset_10\<lparr>selected_indices :=
                  Some (map (\<lambda>i. (trial_change_idx (map snd (index flip_dataset_10)) ! i,
                                   trial_change_idx (map snd (index flip_dataset_10)) ! (i + 1)))
                         ts),
                neural :=
                  concat (map (\<lambda>i. py_slice (neural flip_dataset_10)
                                      (trial_change_idx (map snd (index flip_dataset_10)) ! i)
                                      (trial_change_idx (map snd (index flip_dataset_10)) ! (i + 1)))
                            ts),
                index :=
                  concat (map (\<lambda>i. py_slice (index flip_dataset_10)
                                      (trial_change_idx (map snd (index flip_dataset_10)) ! i)
                                      (trial_change_idx (map snd (index flip_dataset_10)) ! (i + 1)))
                            ts),
                concat_idx :=
                  Some (concat_offsets (trial_change_idx (map snd (index flip_dataset_10))) ts)\<rparr>)"
    by blast
  have v: "v = ?v" using a by (simp add: flip_10_accumulate)
  have r: "resolve_split ''wo_test'' ?n ?v = Inr (IntSeq [2, 3, 5, 6, 8, 9, 1])"
    using w by (simp add: v)
  have "[2, 3, 5, 6, 8, 9, 1 :: nat] \<noteq> []" by simp
  with s r have e: "split_dataset ''wo_test'' 0 flip_dataset_10 =
            (Inr (),
             flip_dataset_10\<lparr>selected_indices :=
                  Some (map (\<lambda>i. (trial_change_idx (map snd (index flip_dataset_10)) ! i,
                                   trial_change_idx (map snd (index flip_dataset_10)) ! (i + 1)))
                         [2, 3, 5, 6, 8, 9, 1]),
                neural :=
                  concat (map (\<lambda>i. py_slice (neural flip_dataset_10)
                                      (trial_change_idx (map snd (index flip_dataset_10)) ! i)
                                      (trial_change_idx (map snd (index flip_dataset_10)) ! (i + 1)))
                            [2, 3, 5, 6, 8, 9, 1]),
                index :=
                  concat (map (\<lambda>i. py_slice (index flip_dataset_10)
                                      (trial_change_idx (map snd (index flip_dataset_10)) ! i)
                                      (trial_change_idx (map snd (index flip_dataset_10)) ! (i + 1)))
                            [2, 3, 5, 6, 8, 9, 1]),
                concat_idx :=
                  Some (concat_offsets (trial_change_idx (map snd (index flip_dataset_10)))
                          [2, 3, 5, 6, 8, 9, 1])\<rparr>)"
    using v by blast
  have f: "fst (split_dataset ''wo_test'' 0 flip_dataset_10) = Inr ()"
    by (simp only: e fst_conv)
  have g: "neural (snd (split_dataset ''wo_test'' 0 flip_dataset_10))
       = concat (map (\<lambda>i. py_slice (neural flip_dataset_10)
                           (trial_change_idx (map snd (index flip_dataset_10)) ! i)
                           (trial_change_idx (map snd (index flip_dataset_10)) ! (i + 1)))
                  [2, 3, 5, 6, 8, 9, 1])"
    by (simp only: e snd_conv) simp
  from r f g show ?thesis by blast
qed

theorem wo_test_not_ascending_counterexample:
  "total_trials_num (map snd (index flip_dataset_10)) = 10
   \<and> accumulate_trials 0 (map snd (index flip_dataset_10))
       = Inr \<lparr>train_trials = [2, 3, 5, 6, 8, 9], valid_trials = [1], test_trials = [0, 4, 7]\<rparr>
   \<and> sort ([2, 3, 5, 6, 8, 9] @ [1 :: nat]) = [1, 2, 3, 5, 6, 8, 9]
   \<and> fst (split_dataset ''wo_test'' 0 flip_dataset_10) = Inr ()
   \<and> selected_indices (snd (split_dataset ''wo_test'' 0 flip_dataset_10))
       = Some [(3, 5), (5, 7), (9, 11), (11, 13), (15, 17), (17, 19), (1, 3)]
   \<and> neural (snd (split_dataset ''wo_test'' 0 flip_dataset_10))
       = [3, 4, 5, 6, 9, 10, 11, 12, 15, 16, 17, 18, 1, 2]
   \<and> neural (snd (reassemble (trial_change_idx (map snd (index flip_dataset_10)))
                     (IntSeq [1, 2, 3, 5, 6, 8, 9]) flip_dataset_10))
       = [1, 2, 3, 4, 5, 6, 9, 10, 11, 12, 15, 16, 17, 18]"
  by code_simp

subsection \<open>The invalid split name\<close>










end
